theory Spec2Isabelle
  imports Main "HOL-Library.Sublist" "HOL-Library.Char_ord" "HOL-Library.List_Lexorder"
    "HOL-Library.Multiset" "HOL-Library.Product_Lexorder"
begin

section \<open>Review comments for TiCS annotations (src/github/posting/annotations.ts)\<close>

subsection \<open>Data\<close>

text \<open>
  The source types every payload as \<open>any\<close>. An annotation is modelled with the properties
  that annotations.ts reads: \<open>fullPath\<close>, \<open>type\<close>, \<open>line\<close>, \<open>rule\<close>, \<open>level\<close>, \<open>category\<close>,
  \<open>msg\<close>, \<open>count\<close>, and \<open>message\<close>. The viewer's annotations carry their text in \<open>msg\<close>;
  \<open>message\<close> is read by findAnnotationInList only, and is \<open>None\<close> where the property is
  absent (the read yields \<open>undefined\<close>). Numbers are integers.
\<close>

record annotation =
  fullPath :: string
  type :: string
  line :: int
  rule :: string
  level :: string
  category :: string
  msg :: string
  message :: "string option"
  count :: int

text \<open>The part of the configuration that annotations.ts reads (src/configuration.ts).\<close>

record ticsConfig =
  projectName :: string
  branchName :: string

record githubConfig =
  owner :: string
  reponame :: string
  pullRequestNumber :: string

text \<open>The object built by the last \<open>map\<close> of createReviewComments.\<close>

record reviewComment =
  body :: string
  path :: string
  line_of :: int

text \<open>A review comment as listed by the hosting platform.\<close>

record postedComment =
  comment_id :: nat
  posted_body :: string

datatype error = TypeError

subsection \<open>Strings\<close>

text \<open>\<open>s.includes(c)\<close>: \<open>c\<close> occurs in \<open>s\<close> as a contiguous substring.\<close>

fun includesStr :: "string \<Rightarrow> string \<Rightarrow> bool" where
  "includesStr [] c = (c = [])"
| "includesStr (x # xs) c = (prefix c (x # xs) \<or> includesStr xs c)"

text \<open>
  \<open>s.replace(pat, rep)\<close> with a string pattern: the first occurrence of \<open>pat\<close> is replaced.
  The source's replacement is the empty string, which has no \<open>$\<close> patterns to expand.
\<close>

fun replace :: "string \<Rightarrow> string \<Rightarrow> string \<Rightarrow> string" where
  "replace [] pat rep = (if pat = [] then rep else [])"
| "replace (x # xs) pat rep =
     (if prefix pat (x # xs) then rep @ drop (length pat) (x # xs)
      else x # replace xs pat rep)"

text \<open>\<open>s.substring(0, n)\<close> for \<open>n\<close> a non-negative literal.\<close>

definition substring0 :: "string \<Rightarrow> nat \<Rightarrow> string" where
  "substring0 s n = take n s"

text \<open>A number inside a template literal: decimal digits, with a minus sign below zero.\<close>

fun show_nat :: "nat \<Rightarrow> string" where
  "show_nat n =
     (if n < 10 then [''0123456789'' ! n]
      else show_nat (n div 10) @ [''0123456789'' ! (n mod 10)])"

definition show_int :: "int \<Rightarrow> string" where
  "show_int i = (if i < 0 then CHR ''-'' # show_nat (nat (- i)) else show_nat (nat i))"

definition crlf :: string where
  "crlf = [CHR 0x0D, CHR 0x0A]"

subsection \<open>findAnnotationInList\<close>

text \<open>\<open>list.findIndex(p)\<close>; \<open>None\<close> stands for the result \<open>-1\<close>.\<close>

fun findIndex :: "('a \<Rightarrow> bool) \<Rightarrow> 'a list \<Rightarrow> nat option" where
  "findIndex p [] = None"
| "findIndex p (x # xs) = (if p x then Some 0 else map_option Suc (findIndex p xs))"

definition findAnnotationInList :: "annotation list \<Rightarrow> annotation \<Rightarrow> nat option" where
  "findAnnotationInList list annotation =
     findIndex (\<lambda>a.
        fullPath a = fullPath annotation \<and>
        type a = type annotation \<and>
        line a = line annotation \<and>
        rule a = rule annotation \<and>
        level a = level annotation \<and>
        category a = category annotation \<and>
        message a = message annotation) list"

subsection \<open>createReviewComments\<close>

text \<open>
  The objects of the array \<open>annotations\<close> are shared with \<open>groupedAnnotations\<close>, and the
  \<open>forEach\<close> writes to \<open>annotations[index].count\<close>. The store is the array itself, one
  object per position (the elements are distinct objects, as parsed from the viewer's
  response), and \<open>groupedAnnotations\<close> is a list of references: positions in the array.
\<close>

type_synonym grouping = "annotation list \<times> nat list"

text \<open>
  \<open>!changedFiles.find(c => fullPath.includes(c))\<close>: \<open>find\<close> returns the first entry that
  \<open>fullPath\<close> contains, or \<open>undefined\<close>; the result is then tested for truthiness, and both
  \<open>undefined\<close> and the empty string are falsy.
\<close>

definition inChangedFiles :: "string list \<Rightarrow> string \<Rightarrow> bool" where
  "inChangedFiles changedFiles fp =
     (case find (\<lambda>c. includesStr fp c) changedFiles of
        None \<Rightarrow> False
      | Some c \<Rightarrow> c \<noteq> [])"

text \<open>
  The callback of \<open>annotations.forEach\<close> at position \<open>i\<close>. Reading \<open>.count\<close> of
  \<open>annotations[index]\<close> where the array has no such position is a TypeError.
\<close>

definition groupAnnotation :: "string list \<Rightarrow> nat \<Rightarrow> grouping \<Rightarrow> error + grouping" where
  "groupAnnotation changedFiles i g =
     (let annotations = fst g; groupedAnnotations = snd g; annotation = annotations ! i in
      if \<not> inChangedFiles changedFiles (fullPath annotation) then Inr g
      else
        (case findAnnotationInList (map ((!) annotations) groupedAnnotations) annotation of
           None \<Rightarrow> Inr (annotations, groupedAnnotations @ [i])
         | Some index \<Rightarrow>
             if index < length annotations
             then Inr (annotations[index := (annotations ! index)
                         \<lparr>count := count (annotations ! index) + count annotation\<rparr>],
                       groupedAnnotations)
             else Inl TypeError))"

fun forEach :: "(nat \<Rightarrow> 's \<Rightarrow> error + 's) \<Rightarrow> nat list \<Rightarrow> 's \<Rightarrow> error + 's" where
  "forEach f [] s = Inr s"
| "forEach f (i # is) s = (case f i s of Inl e \<Rightarrow> Inl e | Inr s' \<Rightarrow> forEach f is s')"

text \<open>The comparator given to \<open>groupedAnnotations.sort\<close>.\<close>

definition compareAnnotations :: "annotation \<Rightarrow> annotation \<Rightarrow> int" where
  "compareAnnotations a b =
     (if fullPath a = fullPath b then line a - line b
      else if fullPath a > fullPath b then 1 else - 1)"

text \<open>
  \<open>Array.prototype.sort\<close> is stable and, for a consistent comparator, returns the one
  stable ordering of its input; insertion from the right computes it.
\<close>

fun insertBy :: "('a \<Rightarrow> 'a \<Rightarrow> int) \<Rightarrow> 'a \<Rightarrow> 'a list \<Rightarrow> 'a list" where
  "insertBy cmp x [] = [x]"
| "insertBy cmp x (y # ys) =
     (if cmp x y \<le> 0 then x # y # ys else y # insertBy cmp x ys)"

definition sortBy :: "('a \<Rightarrow> 'a \<Rightarrow> int) \<Rightarrow> 'a list \<Rightarrow> 'a list" where
  "sortBy cmp xs = foldr (insertBy cmp) xs []"

definition displayCount :: "annotation \<Rightarrow> string" where
  "displayCount annotation =
     (if count annotation = 1 then [] else ''('' @ show_int (count annotation) @ ''x) '')"

definition hiePrefix :: "ticsConfig \<Rightarrow> string" where
  "hiePrefix cfg = ''HIE://'' @ projectName cfg @ ''/'' @ branchName cfg @ ''/''"

definition toReviewComment :: "ticsConfig \<Rightarrow> annotation \<Rightarrow> reviewComment" where
  "toReviewComment cfg annotation =
     \<lparr> body = '':warning: **TiCS: '' @ type annotation @ '' violation: '' @ msg annotation
              @ ''** '' @ crlf @ displayCount annotation
              @ ''Line: '' @ show_int (line annotation)
              @ '', Rule: '' @ rule annotation
              @ '', Level: '' @ level annotation
              @ '', Category: '' @ category annotation @ '' '' @ crlf,
       path = replace (fullPath annotation) (hiePrefix cfg) [],
       line_of = line annotation \<rparr>"

text \<open>The state after the \<open>forEach\<close>: the array with its updated counts, and the references
  kept in \<open>groupedAnnotations\<close>.\<close>

definition grouped :: "annotation list \<Rightarrow> string list \<Rightarrow> error + grouping" where
  "grouped annotations changedFiles =
     forEach (groupAnnotation changedFiles) [0..<length annotations] (annotations, [])"

text \<open>\<open>groupedAnnotations\<close> after the sort, as references into the array.\<close>

definition sortedRefs :: "grouping \<Rightarrow> nat list" where
  "sortedRefs g = sortBy (\<lambda>r s. compareAnnotations (fst g ! r) (fst g ! s)) (snd g)"

text \<open>
  createReviewComments returns the review comments; the second component is the caller's
  array \<open>annotations\<close> as the call leaves it.
\<close>

definition createReviewComments ::
  "ticsConfig \<Rightarrow> annotation list \<Rightarrow> string list \<Rightarrow> error + (reviewComment list \<times> annotation list)"
where
  "createReviewComments cfg annotations changedFiles =
     (case grouped annotations changedFiles of
        Inl e \<Rightarrow> Inl e
      | Inr g \<Rightarrow> Inr (map (\<lambda>r. toReviewComment cfg (fst g ! r)) (sortedRefs g), fst g))"

subsection \<open>The hosting platform\<close>

text \<open>
  The calls of \<open>octokit\<close> that annotations.ts makes. The parameters \<open>owner\<close>, \<open>repo\<close> and
  \<open>pull_number\<close> are the three fields of \<open>githubConfig\<close>; a deletion adds the
  \<open>comment_id\<close>, a creation the \<open>commit_id\<close> of the review and the \<open>body\<close>, \<open>line\<close> and
  \<open>path\<close> of the comment.
\<close>

datatype call =
    ListReviewComments githubConfig
  | DeleteReviewComment githubConfig nat
  | CreateReviewComment githubConfig string reviewComment

datatype logLevel = LogHeader | LogInfo | LogDebug | LogError

text \<open>
  What a run does, in order: a line given to the logger, a call made, or the promise of a
  call settling in the code that awaits it (\<open>None\<close>: fulfilled, \<open>Some m\<close>: rejected with
  \<open>error.message = m\<close>).
\<close>

datatype event =
    Log logLevel string
  | Call call
  | Settled call "string option"

text \<open>
  The platform's side of one run. \<open>listing\<close> is the outcome of the paginated listing:
  every review comment of the pull request, or the message of the rejection.
  \<open>deleteOutcome k\<close> and \<open>createOutcome k\<close> are the outcomes of the \<open>k\<close>-th deletion and the
  \<open>k\<close>-th creation that the run issues. \<open>arrival\<close> is the order in which the responses to
  these calls reach the run while it is suspended in \<open>await Promise.all\<close>.

  No response is handled earlier: between the fan-out of the deletions and the fan-out of
  the creations the function only awaits createReviewComments, which has no \<open>await\<close> of its
  own, so the event loop does not return to I/O before the creations are issued.
\<close>

datatype response = DeleteResponse nat | CreateResponse nat

record platform =
  listing :: "string + postedComment list"
  deleteOutcome :: "nat \<Rightarrow> string option"
  createOutcome :: "nat \<Rightarrow> string option"
  arrival :: "response list"

text \<open>The \<open>review\<close> argument: annotations.ts reads \<open>review.data.commit_id\<close>.\<close>

record review =
  commit_id :: string

subsection \<open>getPostedReviewComments\<close>

text \<open>The result \<open>None\<close> is the \<open>undefined\<close> that the function returns after the \<open>catch\<close>.\<close>

definition getPostedReviewComments ::
  "githubConfig \<Rightarrow> platform \<Rightarrow> event list \<times> postedComment list option"
where
  "getPostedReviewComments gh env =
     (case listing env of
        Inr comments \<Rightarrow>
          ([Log LogInfo ''Retrieving posted review comments.'',
            Call (ListReviewComments gh),
            Settled (ListReviewComments gh) None],
           Some comments)
      | Inl m \<Rightarrow>
          ([Log LogInfo ''Retrieving posted review comments.'',
            Call (ListReviewComments gh),
            Settled (ListReviewComments gh) (Some m),
            Log LogError (''Could not retrieve the review comments: '' @ m)],
           None))"

subsection \<open>deletePreviousReviewComments\<close>

definition marker :: string where
  "marker = '':warning: **TiCS:''"

text \<open>
  The synchronous part of the \<open>map\<close> callback for one posted comment: up to its \<open>await\<close>.
\<close>

definition deleteIfOwned :: "githubConfig \<Rightarrow> postedComment \<Rightarrow> event list" where
  "deleteIfOwned gh reviewComment =
     (if substring0 (posted_body reviewComment) 17 = marker
      then [Call (DeleteReviewComment gh (comment_id reviewComment))]
      else [])"

text \<open>
  deletePreviousReviewComments is called without \<open>await\<close>, and its \<open>map\<close> is not awaited
  either: the call runs every callback up to its \<open>await\<close>, logs, and returns. The events
  are those of this synchronous part; the second component lists the comment ids whose
  deletion is now pending.
\<close>

definition deletePreviousReviewComments ::
  "githubConfig \<Rightarrow> postedComment list \<Rightarrow> event list \<times> nat list"
where
  "deletePreviousReviewComments gh postedReviewComments =
     ([Log LogHeader ''Deleting review comments of previous runs.'']
        @ concat (map (deleteIfOwned gh) postedReviewComments)
        @ [Log LogInfo ''Deleted review comments of previous runs.''],
      map comment_id
        (filter (\<lambda>reviewComment. substring0 (posted_body reviewComment) 17 = marker)
           postedReviewComments))"

text \<open>The rest of the callback, run when the response to the \<open>k\<close>-th deletion arrives.\<close>

definition deleteSettled :: "githubConfig \<Rightarrow> platform \<Rightarrow> nat list \<Rightarrow> nat \<Rightarrow> event list" where
  "deleteSettled gh env deletions k =
     (case deleteOutcome env k of
        None \<Rightarrow> [Settled (DeleteReviewComment gh (deletions ! k)) None]
      | Some m \<Rightarrow>
          [Settled (DeleteReviewComment gh (deletions ! k)) (Some m),
           Log LogError (''Could not delete review comment: '' @ m)])"

subsection \<open>postReviewComments\<close>

text \<open>
  The rest of the posting callback, run when the response to the \<open>k\<close>-th creation arrives:
  on a rejection the comment is pushed to \<open>unpostedReviewComments\<close>.
\<close>

definition createSettled ::
  "githubConfig \<Rightarrow> review \<Rightarrow> platform \<Rightarrow> reviewComment list \<Rightarrow> nat \<Rightarrow> reviewComment list
     \<Rightarrow> event list \<times> reviewComment list"
where
  "createSettled gh rv env comments k unposted =
     (case createOutcome env k of
        None \<Rightarrow>
          ([Settled (CreateReviewComment gh (commit_id rv) (comments ! k)) None], unposted)
      | Some m \<Rightarrow>
          ([Settled (CreateReviewComment gh (commit_id rv) (comments ! k)) (Some m),
            Log LogDebug (''Could not post review comment: '' @ m)],
           unposted @ [comments ! k]))"

text \<open>
  \<open>await Promise.all(...)\<close>: the responses are handled in their order of arrival, each by
  the callback that awaits it, until no creation is pending; the await then ends with the
  accumulated \<open>unpostedReviewComments\<close>. A response to a call that is not pending is not
  one of this run and is passed over. The result \<open>None\<close> is an await that never ends: the
  responses are used up while a creation is still pending.
\<close>

fun awaitAll ::
  "(nat \<Rightarrow> reviewComment list \<Rightarrow> event list \<times> reviewComment list) \<Rightarrow> (nat \<Rightarrow> event list)
     \<Rightarrow> response list \<Rightarrow> nat list \<Rightarrow> nat list \<Rightarrow> reviewComment list
     \<Rightarrow> event list \<times> reviewComment list option"
where
  "awaitAll onCreate onDelete [] creating deleting unposted =
     ([], if creating = [] then Some unposted else None)"
| "awaitAll onCreate onDelete (r # rs) creating deleting unposted =
     (if creating = [] then ([], Some unposted)
      else
        (case r of
           CreateResponse k \<Rightarrow>
             if k \<in> set creating
             then
               (let step = onCreate k unposted;
                    rest = awaitAll onCreate onDelete rs (removeAll k creating) deleting (snd step)
                in (fst step @ fst rest, snd rest))
             else awaitAll onCreate onDelete rs creating deleting unposted
         | DeleteResponse k \<Rightarrow>
             if k \<in> set deleting
             then
               (let rest = awaitAll onCreate onDelete rs creating (removeAll k deleting) unposted
                in (onDelete k @ fst rest, snd rest))
             else awaitAll onCreate onDelete rs creating deleting unposted))"

text \<open>
  postReviewComments. The first component is what the run did; the second is how the
  promise of postReviewComments settles: \<open>Some (Inr unposted)\<close> when it returns
  \<open>unpostedReviewComments\<close>, \<open>Some (Inl e)\<close> when it throws, \<open>None\<close> when it never settles.
\<close>

definition postReviewComments ::
  "githubConfig \<Rightarrow> ticsConfig \<Rightarrow> platform \<Rightarrow> review \<Rightarrow> annotation list \<Rightarrow> string list
     \<Rightarrow> event list \<times> (error + reviewComment list) option"
where
  "postReviewComments gh cfg env rv annotations changedFiles =
     (let listed = getPostedReviewComments gh env;
          purge = (case snd listed of
                     None \<Rightarrow> ([], [])
                   | Some postedReviewComments \<Rightarrow>
                       deletePreviousReviewComments gh postedReviewComments)
      in case createReviewComments cfg annotations changedFiles of
           Inl e \<Rightarrow> (fst listed @ fst purge, Some (Inl e))
         | Inr created \<Rightarrow>
             (let comments = fst created;
                  posting = Log LogHeader ''Posting review comments.''
                            # map (\<lambda>comment. Call (CreateReviewComment gh (commit_id rv) comment))
                                comments;
                  waited = awaitAll (createSettled gh rv env comments)
                             (deleteSettled gh env (snd purge)) (arrival env)
                             [0..<length comments] [0..<length (snd purge)] []
              in case snd waited of
                   None \<Rightarrow> (fst listed @ fst purge @ posting @ fst waited, None)
                 | Some unposted \<Rightarrow>
                     (fst listed @ fst purge @ posting @ fst waited
                        @ [Log LogInfo ''Posted review comments.''],
                      Some (Inr unposted))))"

subsection \<open>Reading a run\<close>

fun isCreateCall :: "event \<Rightarrow> bool" where
  "isCreateCall (Call (CreateReviewComment gh c comment)) = True"
| "isCreateCall e = False"

fun isDeleteCall :: "event \<Rightarrow> bool" where
  "isDeleteCall (Call (DeleteReviewComment gh i)) = True"
| "isDeleteCall e = False"

fun isDeleteSettled :: "event \<Rightarrow> bool" where
  "isDeleteSettled (Settled (DeleteReviewComment gh i) r) = True"
| "isDeleteSettled e = False"

text \<open>The comment ids of the deletions a run issues, and the comments it tries to post.\<close>

fun deletionsIssued :: "event list \<Rightarrow> nat list" where
  "deletionsIssued [] = []"
| "deletionsIssued (Call (DeleteReviewComment gh i) # es) = i # deletionsIssued es"
| "deletionsIssued (e # es) = deletionsIssued es"

fun creationsIssued :: "event list \<Rightarrow> reviewComment list" where
  "creationsIssued [] = []"
| "creationsIssued (Call (CreateReviewComment gh c comment) # es) = comment # creationsIssued es"
| "creationsIssued (e # es) = creationsIssued es"

text \<open>The comment ids of the deletions whose settling a run has handled.\<close>

fun deletionsSettled :: "event list \<Rightarrow> nat list" where
  "deletionsSettled [] = []"
| "deletionsSettled (Settled (DeleteReviewComment gh i) r # es) = i # deletionsSettled es"
| "deletionsSettled (e # es) = deletionsSettled es"

text \<open>From the first creation call on, the run issues no deletion.\<close>

definition purgeIssuedBeforePosting :: "event list \<Rightarrow> bool" where
  "purgeIssuedBeforePosting tr =
     list_all (\<lambda>e. \<not> isDeleteCall e) (dropWhile (\<lambda>e. \<not> isCreateCall e) tr)"

text \<open>
  Every deletion that the run issues has settled before the first creation call (read for
  a run that makes a creation call).
\<close>

definition purgeCompletedBeforePosting :: "event list \<Rightarrow> bool" where
  "purgeCompletedBeforePosting tr =
     (mset (deletionsSettled (takeWhile (\<lambda>e. \<not> isCreateCall e) tr)) = mset (deletionsIssued tr))"

subsection \<open>Notions used in the statements\<close>

text \<open>The comparison that findAnnotationInList makes between two annotations.\<close>

definition sameKey :: "annotation \<Rightarrow> annotation \<Rightarrow> bool" where
  "sameKey a b =
     (fullPath a = fullPath b \<and> type a = type b \<and> line a = line b \<and> rule a = rule b \<and>
      level a = level b \<and> category a = category b \<and> message a = message b)"

text \<open>An annotation apart from its \<open>count\<close>, the one field that the grouping writes.\<close>

definition withoutCount :: "annotation \<Rightarrow> annotation" where
  "withoutCount a = a\<lparr>count := 0\<rparr>"

text \<open>
  What holds of the array and of \<open>groupedAnnotations\<close> when the \<open>forEach\<close> reaches
  position \<open>i\<close>: only counts have changed, the references are in first-seen order, there
  are at most \<open>i\<close> of them, and each is an earlier position whose annotation passed the
  filter on the changed files.
\<close>

definition groupingInv :: "string list \<Rightarrow> annotation list \<Rightarrow> nat \<Rightarrow> grouping \<Rightarrow> bool" where
  "groupingInv changedFiles annotations i g =
     (length (fst g) = length annotations \<and>
      map withoutCount (fst g) = map withoutCount annotations \<and>
      sorted_wrt (<) (snd g) \<and>
      length (snd g) \<le> i \<and>
      (\<forall>r \<in> set (snd g). r < i \<and> inChangedFiles changedFiles (fullPath (annotations ! r))))"


text \<open>The six fields that the specification names as the duplicate key.\<close>

definition sameSixFields :: "annotation \<Rightarrow> annotation \<Rightarrow> bool" where
  "sameSixFields a b =
     (fullPath a = fullPath b \<and> type a = type b \<and> line a = line b \<and> rule a = rule b \<and>
      level a = level b \<and> category a = category b)"

text \<open>The pair that the comparator of the sort orders by, for the annotation at a reference.\<close>

definition sortKey :: "annotation list \<Rightarrow> nat \<Rightarrow> string \<times> int" where
  "sortKey annotations r = (fullPath (annotations ! r), line (annotations ! r))"

text \<open>
  No annotation that passes the scope filter has the key of an earlier one that passes it:
  the grouping then merges nothing.
\<close>

definition noRepeatedKey :: "string list \<Rightarrow> annotation list \<Rightarrow> bool" where
  "noRepeatedKey changedFiles annotations =
     (\<forall>j \<in> {..<length annotations}. \<forall>i \<in> {..<j}.
        inChangedFiles changedFiles (fullPath (annotations ! i)) \<and>
        inChangedFiles changedFiles (fullPath (annotations ! j)) \<longrightarrow>
        \<not> sameKey (annotations ! i) (annotations ! j))"

subsection \<open>Sample inputs\<close>

definition sampleConfig :: ticsConfig where
  "sampleConfig = \<lparr> projectName = ''project'', branchName = ''main'' \<rparr>"

definition sampleGithub :: githubConfig where
  "sampleGithub = \<lparr> owner = ''asml'', reponame = ''repo'', pullRequestNumber = ''12'' \<rparr>"

definition sampleAnnotation :: annotation where
  "sampleAnnotation =
     \<lparr> fullPath = ''HIE://project/main/repo/a.ts'', type = ''T'', line = 5, rule = ''R1'',
       level = ''L'', category = ''C'', msg = ''x'', message = None, count = 1 \<rparr>"

definition sampleOther :: annotation where
  "sampleOther = sampleAnnotation \<lparr> fullPath := ''HIE://project/main/repo/b.ts'' \<rparr>"

definition sampleMessage :: annotation where
  "sampleMessage = sampleAnnotation \<lparr> message := Some ''text'' \<rparr>"



definition sampleReview :: review where
  "sampleReview = \<lparr> commit_id = ''abc123'' \<rparr>"

definition samplePosted :: "postedComment list" where
  "samplePosted =
     [\<lparr> comment_id = 7, posted_body = '':warning: **TiCS: T violation: old** '' \<rparr>,
      \<lparr> comment_id = 8, posted_body = ''Looks good to me'' \<rparr>]"

text \<open>
  A platform that lists one comment of the tool and one written by hand, rejects the first
  creation, and answers the deletion first.
\<close>

definition samplePlatform :: platform where
  "samplePlatform =
     \<lparr> listing = Inr samplePosted,
       deleteOutcome = (\<lambda>k. None),
       createOutcome = (\<lambda>k. if k = 0 then Some ''line is not part of the diff'' else None),
       arrival = [DeleteResponse 0, CreateResponse 1, CreateResponse 0] \<rparr>"

definition sampleFailing :: platform where
  "sampleFailing = samplePlatform \<lparr> listing := Inl ''Not Found'' \<rparr>"

section \<open>Properties\<close>

subsection \<open>The grouping loop\<close>

lemma forEach_append:
  "forEach f (xs @ ys) s = (case forEach f xs s of Inl e \<Rightarrow> Inl e | Inr s' \<Rightarrow> forEach f ys s')"
  by (induction xs arbitrary: s) (auto split: sum.splits)

lemma findIndex_bound: "findIndex p xs = Some k \<Longrightarrow> k < length xs"
  by (induction xs arbitrary: k) (auto split: if_splits)

lemma findIndex_None: "findIndex p xs = None \<longleftrightarrow> (\<forall>x \<in> set xs. \<not> p x)"
  by (induction xs) auto

lemma findAnnotationInList_sameKey:
  "findAnnotationInList list annotation = findIndex (\<lambda>a. sameKey a annotation) list"
  by (simp add: findAnnotationInList_def sameKey_def)

lemma withoutCount_nth:
  "map withoutCount xs = map withoutCount ys \<Longrightarrow> i < length xs \<Longrightarrow>
   withoutCount (xs ! i) = withoutCount (ys ! i)"
  by (metis length_map nth_map)

lemma withoutCount_fullPath: "withoutCount a = withoutCount b \<Longrightarrow> fullPath a = fullPath b"
  by (metis withoutCount_def annotation.select_convs(1) annotation.surjective annotation.update_convs(9))

lemma groupAnnotation_inv:
  assumes inv: "groupingInv cf anns i g" and i: "i < length anns"
  shows "\<exists>g'. groupAnnotation cf i g = Inr g' \<and> groupingInv cf anns (Suc i) g'"
proof -
  obtain s gr where g: "g = (s, gr)" by (cases g)
  from inv g have len: "length s = length anns"
    and wc: "map withoutCount s = map withoutCount anns"
    and srt: "sorted_wrt (<) gr" and lgr: "length gr \<le> i"
    and refs: "\<forall>r \<in> set gr. r < i \<and> inChangedFiles cf (fullPath (anns ! r))"
    by (simp_all add: groupingInv_def)
  have "withoutCount (s ! i) = withoutCount (anns ! i)"
    using withoutCount_nth [OF wc] i len by simp
  then have fp: "fullPath (s ! i) = fullPath (anns ! i)"
    by (rule withoutCount_fullPath)
  show ?thesis
  proof (cases "inChangedFiles cf (fullPath (s ! i))")
    case False
    then have "groupAnnotation cf i g = Inr g" by (simp add: groupAnnotation_def g)
    moreover have "groupingInv cf anns (Suc i) g"
      using inv by (auto simp: groupingInv_def)
    ultimately show ?thesis by blast
  next
    case True
    show ?thesis
    proof (cases "findAnnotationInList (map ((!) s) gr) (s ! i)")
      case None
      then have "groupAnnotation cf i g = Inr (s, gr @ [i])"
        using True by (simp add: groupAnnotation_def g)
      moreover have "groupingInv cf anns (Suc i) (s, gr @ [i])"
        using len wc srt lgr refs True fp
        by (auto simp: groupingInv_def sorted_wrt_append less_Suc_eq)
      ultimately show ?thesis by blast
    next
      case (Some index)
      then have "index < length gr" using findIndex_bound
        by (fastforce simp: findAnnotationInList_def)
      then have idx: "index < length s" using lgr i len by simp
      let ?s' = "s[index := (s ! index)\<lparr>count := count (s ! index) + count (s ! i)\<rparr>]"
      have "groupAnnotation cf i g = Inr (?s', gr)"
        using True Some idx by (simp add: groupAnnotation_def g)
      moreover have "map withoutCount ?s' = map withoutCount s"
        using idx by (simp add: map_update withoutCount_def list_update_same_conv)
      then have "groupingInv cf anns (Suc i) (?s', gr)"
        using len wc srt lgr refs by (auto simp: groupingInv_def less_Suc_eq)
      ultimately show ?thesis by blast
    qed
  qed
qed

lemma forEach_upt_inv:
  "n \<le> length anns \<Longrightarrow>
   \<exists>g. forEach (groupAnnotation cf) [0..<n] (anns, []) = Inr g \<and> groupingInv cf anns n g"
proof (induction n)
  case 0
  show ?case by (simp add: groupingInv_def)
next
  case (Suc n)
  then obtain g where g: "forEach (groupAnnotation cf) [0..<n] (anns, []) = Inr g"
    and inv: "groupingInv cf anns n g" by auto
  from groupAnnotation_inv [OF inv] Suc.prems obtain g' where
    "groupAnnotation cf n g = Inr g'" "groupingInv cf anns (Suc n) g'" by auto
  then show ?case using g by (simp add: forEach_append)
qed

lemma grouped_inv:
  "\<exists>g. grouped anns cf = Inr g \<and> groupingInv cf anns (length anns) g"
  unfolding grouped_def by (rule forEach_upt_inv) simp

subsection \<open>Sorting and the scope filter\<close>

lemma set_insertBy: "set (insertBy cmp x xs) = insert x (set xs)"
  by (induction xs) auto

lemma set_sortBy: "set (sortBy cmp xs) = set xs"
  unfolding sortBy_def by (induction xs) (simp_all add: set_insertBy)

lemma set_sortedRefs: "set (sortedRefs g) = set (snd g)"
  by (simp add: sortedRefs_def set_sortBy)


lemma inChangedFiles_iff:
  "[] \<notin> set cf \<Longrightarrow> inChangedFiles cf fp = (\<exists>c \<in> set cf. includesStr fp c)"
  by (induction cf) (auto simp: inChangedFiles_def)

lemma createReviewComments_grouped:
  "grouped anns cf = Inr g \<Longrightarrow>
   createReviewComments cfg anns cf =
     Inr (map (\<lambda>r. toReviewComment cfg (fst g ! r)) (sortedRefs g), fst g)"
  by (simp add: createReviewComments_def)

lemma includesStr_Nil: "includesStr s []"
  by (cases s) simp_all




subsection \<open>Grouping two annotations\<close>

lemma grouped_pair:
  assumes "inChangedFiles cf (fullPath a)" "inChangedFiles cf (fullPath b)"
  shows "grouped [a, b] cf =
           (if sameKey a b then Inr ([a\<lparr>count := count a + count b\<rparr>, b], [0])
            else Inr ([a, b], [0, 1]))"
proof -
  have u: "[0..<length [a, b]] = [0, Suc 0]" by (simp add: upt_rec)
  show ?thesis
    using assms unfolding grouped_def u
    by (auto simp: groupAnnotation_def findAnnotationInList_sameKey Let_def)
qed

lemma createReviewComments_pair_merged:
  assumes "inChangedFiles cf (fullPath a)" "inChangedFiles cf (fullPath b)" "sameKey a b"
  shows "createReviewComments cfg [a, b] cf =
           Inr ([toReviewComment cfg (a\<lparr>count := count a + count b\<rparr>)],
                [a\<lparr>count := count a + count b\<rparr>, b])"
  using grouped_pair [OF assms(1,2)] assms(3)
  by (simp add: createReviewComments_def sortedRefs_def sortBy_def)

lemma createReviewComments_pair_apart:
  assumes "inChangedFiles cf (fullPath a)" "inChangedFiles cf (fullPath b)" "\<not> sameKey a b"
  shows "\<exists>c d. createReviewComments cfg [a, b] cf = Inr ([c, d], [a, b])"
  using grouped_pair [OF assms(1,2)] assms(3)
  by (simp add: createReviewComments_def sortedRefs_def sortBy_def)

text \<open>
  C1, as the code has it. Two annotations that agree on \<open>fullPath\<close>, \<open>type\<close>, \<open>line\<close>,
  \<open>rule\<close>, \<open>level\<close> and \<open>category\<close> and also on the \<open>message\<close> property, whose \<open>fullPath\<close>
  contains a changed file, none of the changed files being the empty string: grouping
  \<open>[a, b]\<close> yields one review comment, made from \<open>a\<close> with the count
  \<open>a.count + b.count\<close>. The sum is written into \<open>a\<close> itself.
\<close>

theorem deduplication_of_a_pair:
  assumes "sameSixFields a b" and "message a = message b"
    and "\<exists>c \<in> set changedFiles. includesStr (fullPath a) c"
    and "[] \<notin> set changedFiles"
  shows "createReviewComments cfg [a, b] changedFiles =
           Inr ([toReviewComment cfg (a\<lparr>count := count a + count b\<rparr>)],
                [a\<lparr>count := count a + count b\<rparr>, b])"
proof -
  have k: "sameKey a b" using assms(1,2) by (simp add: sameKey_def sameSixFields_def)
  have a: "inChangedFiles changedFiles (fullPath a)"
    using assms(3,4) by (simp add: inChangedFiles_iff)
  have "fullPath b = fullPath a" using assms(1) by (simp add: sameSixFields_def)
  with a have b: "inChangedFiles changedFiles (fullPath b)" by simp
  show ?thesis by (rule createReviewComments_pair_merged [OF a b k])
qed

theorem deduplication_of_a_pair_witness:
  "sameSixFields sampleAnnotation (sampleAnnotation\<lparr>msg := ''y''\<rparr>) \<and>
   message sampleAnnotation = message (sampleAnnotation\<lparr>msg := ''y''\<rparr>) \<and>
   includesStr (fullPath sampleAnnotation) ''a.ts'' \<and>
   [] \<notin> set [''a.ts''] \<and>
   createReviewComments sampleConfig [sampleAnnotation, sampleAnnotation\<lparr>msg := ''y''\<rparr>] [''a.ts''] =
     Inr ([toReviewComment sampleConfig (sampleAnnotation\<lparr>count := 2\<rparr>)],
          [sampleAnnotation\<lparr>count := 2\<rparr>, sampleAnnotation\<lparr>msg := ''y''\<rparr>])"
proof -
  have s: "sameSixFields sampleAnnotation (sampleAnnotation\<lparr>msg := ''y''\<rparr>)"
    by (simp add: sameSixFields_def)
  have m: "message sampleAnnotation = message (sampleAnnotation\<lparr>msg := ''y''\<rparr>)" by simp
  have i: "includesStr (fullPath sampleAnnotation) ''a.ts''" by (simp add: sampleAnnotation_def)
  then have e: "\<exists>c \<in> set [''a.ts'']. includesStr (fullPath sampleAnnotation) c" by simp
  have n: "[] \<notin> set [''a.ts'']" by simp
  have c: "count sampleAnnotation + count (sampleAnnotation\<lparr>msg := ''y''\<rparr>) = 2"
    by (simp add: sampleAnnotation_def)
  show ?thesis
    using deduplication_of_a_pair [OF s m e n, of sampleConfig] s m i n c by simp
qed

text \<open>
  C1 as stated fails: the six fields agree and both annotations are in scope, yet the
  \<open>message\<close> properties differ, findAnnotationInList does not match, and two review
  comments come out, each with its own count.
\<close>

theorem deduplication_of_a_pair_counterexample:
  "sameSixFields sampleAnnotation sampleMessage \<and>
   includesStr (fullPath sampleAnnotation) ''a.ts'' \<and>
   includesStr (fullPath sampleMessage) ''a.ts'' \<and>
   createReviewComments sampleConfig [sampleAnnotation, sampleMessage] [''a.ts''] =
     Inr ([toReviewComment sampleConfig sampleAnnotation, toReviewComment sampleConfig sampleMessage],
          [sampleAnnotation, sampleMessage])"
  by code_simp

text \<open>
  C7, as the code has it. findAnnotationInList matches two annotations exactly when
  \<open>fullPath\<close>, \<open>type\<close>, \<open>line\<close>, \<open>rule\<close>, \<open>level\<close>, \<open>category\<close> and the \<open>message\<close> property
  are equal, and two annotations that pass the scope filter are grouped into one review
  comment exactly then. The text \<open>msg\<close> is not compared: annotations that differ only in
  \<open>msg\<close> are grouped into one.
\<close>

theorem duplicate_key:
  "(findAnnotationInList [a] b = Some 0) = (sameSixFields a b \<and> message a = message b) \<and>
   (inChangedFiles changedFiles (fullPath a) \<and> inChangedFiles changedFiles (fullPath b) \<longrightarrow>
      (\<exists>c anns. createReviewComments cfg [a, b] changedFiles = Inr ([c], anns)) =
      (sameSixFields a b \<and> message a = message b)) \<and>
   (inChangedFiles changedFiles (fullPath a) \<longrightarrow>
      (\<exists>c anns. createReviewComments cfg [a, a\<lparr>msg := m\<rparr>] changedFiles = Inr ([c], anns)))"
proof (intro conjI impI)
  show "(findAnnotationInList [a] b = Some 0) = (sameSixFields a b \<and> message a = message b)"
    by (auto simp: findAnnotationInList_def sameSixFields_def)
next
  assume s: "inChangedFiles changedFiles (fullPath a) \<and> inChangedFiles changedFiles (fullPath b)"
  have k: "sameKey a b = (sameSixFields a b \<and> message a = message b)"
    by (auto simp: sameKey_def sameSixFields_def)
  show "(\<exists>c anns. createReviewComments cfg [a, b] changedFiles = Inr ([c], anns)) =
      (sameSixFields a b \<and> message a = message b)"
  proof (cases "sameKey a b")
    case True
    with createReviewComments_pair_merged [of changedFiles a b cfg] s k show ?thesis by simp
  next
    case False
    with createReviewComments_pair_apart [of changedFiles a b cfg] s k show ?thesis by auto
  qed
next
  assume s: "inChangedFiles changedFiles (fullPath a)"
  have "sameKey a (a\<lparr>msg := m\<rparr>)" by (simp add: sameKey_def)
  with createReviewComments_pair_merged [of changedFiles a "a\<lparr>msg := m\<rparr>" cfg] s
  show "\<exists>c anns. createReviewComments cfg [a, a\<lparr>msg := m\<rparr>] changedFiles = Inr ([c], anns)"
    by simp
qed

theorem duplicate_key_witness:
  "inChangedFiles [''a.ts''] (fullPath sampleAnnotation) \<and>
   findAnnotationInList [sampleAnnotation] (sampleAnnotation\<lparr>msg := ''y''\<rparr>) = Some 0 \<and>
   (\<exists>c anns. createReviewComments sampleConfig [sampleAnnotation, sampleAnnotation\<lparr>msg := ''y''\<rparr>]
               [''a.ts''] = Inr ([c], anns))"
proof -
  have i: "inChangedFiles [''a.ts''] (fullPath sampleAnnotation)"
    by (simp add: inChangedFiles_def sampleAnnotation_def)
  have s: "sameSixFields sampleAnnotation (sampleAnnotation\<lparr>msg := ''y''\<rparr>)"
    by (simp add: sameSixFields_def)
  show ?thesis
    using duplicate_key [of sampleAnnotation "sampleAnnotation\<lparr>msg := ''y''\<rparr>" "[''a.ts'']"
        sampleConfig "''y''"] i s
    by simp
qed

text \<open>
  C7 as stated fails: the six fields agree, yet the \<open>message\<close> properties differ and
  findAnnotationInList reports no match.
\<close>

theorem duplicate_key_counterexample:
  "sameSixFields sampleAnnotation sampleMessage \<and>
   findAnnotationInList [sampleAnnotation] sampleMessage = None"
  by code_simp

text \<open>
  C10 on the code. With the empty string as the one changed file, \<open>find\<close> returns the
  empty string, which is falsy: the annotation is dropped although its \<open>fullPath\<close> contains
  the entry.
\<close>

theorem empty_changed_file_drops:
  "includesStr (fullPath sampleAnnotation) [] \<and>
   inChangedFiles [[]] (fullPath sampleAnnotation) = False \<and>
   createReviewComments sampleConfig [sampleAnnotation] [[]] = Inr ([], [sampleAnnotation])"
  by code_simp

subsection \<open>The order of the review comments\<close>

lemma compareAnnotations_le:
  "(compareAnnotations a b \<le> 0) = ((fullPath a, line a) \<le> (fullPath b, line b))"
  by (auto simp: compareAnnotations_def less_eq_prod_def)

lemma insertBy_insort_key:
  "(\<And>x y. (cmp x y \<le> 0) = (k x \<le> k y)) \<Longrightarrow> insertBy cmp x xs = insort_key k x xs"
  by (induction xs) simp_all

lemma sortBy_sort_key:
  assumes "\<And>x y. (cmp x y \<le> 0) = (k x \<le> k y)"
  shows "sortBy cmp xs = sort_key k xs"
  unfolding sortBy_def by (induction xs) (simp_all add: insertBy_insort_key [OF assms])

lemma sortedRefs_sort_key: "sortedRefs g = sort_key (sortKey (fst g)) (snd g)"
  unfolding sortedRefs_def
  by (rule sortBy_sort_key) (simp add: compareAnnotations_le sortKey_def)
















subsection \<open>Grouping the same array twice\<close>

lemma findIndex_map: "findIndex p (map f xs) = findIndex (\<lambda>x. p (f x)) xs"
  by (induction xs) simp_all

lemma sameKey_withoutCount: "sameKey (withoutCount a) (withoutCount b) = sameKey a b"
  by (simp add: sameKey_def withoutCount_def)

lemma findAnnotationInList_withoutCount:
  "findAnnotationInList (map withoutCount l) (withoutCount a) = findAnnotationInList l a"
  by (simp add: findAnnotationInList_sameKey findIndex_map sameKey_withoutCount)

lemma map_nth_withoutCount:
  "\<forall>r \<in> set gr. r < length s \<Longrightarrow>
   map withoutCount (map ((!) s) gr) = map ((!) (map withoutCount s)) gr"
  by (induction gr) simp_all

lemma findAnnotationInList_cong:
  assumes "map withoutCount s = map withoutCount t" and "\<forall>r \<in> set gr. r < length s"
    and "i < length s"
  shows "findAnnotationInList (map ((!) s) gr) (s ! i) =
         findAnnotationInList (map ((!) t) gr) (t ! i)"
proof -
  have l: "length t = length s" using assms(1) by (metis length_map)
  have "findAnnotationInList (map ((!) s) gr) (s ! i) =
        findAnnotationInList (map ((!) (map withoutCount s)) gr) (withoutCount (s ! i))"
    using map_nth_withoutCount [OF assms(2)] findAnnotationInList_withoutCount by metis
  also have "\<dots> = findAnnotationInList (map ((!) (map withoutCount t)) gr) (withoutCount (t ! i))"
    using withoutCount_nth [OF assms(1,3)] assms(1) by (simp only:)
  also have "\<dots> = findAnnotationInList (map ((!) t) gr) (t ! i)"
    using map_nth_withoutCount [of gr t] assms(2) l findAnnotationInList_withoutCount by metis
  finally show ?thesis .
qed

lemma groupAnnotation_refs_cong:
  assumes wc: "map withoutCount s = map withoutCount t"
    and refs: "\<forall>r \<in> set gr. r < length s" and i: "i < length s"
    and a: "groupAnnotation cf i (s, gr) = Inr g'"
    and b: "groupAnnotation cf i (t, gr) = Inr h'"
  shows "snd g' = snd h'"
proof -
  have fp: "fullPath (t ! i) = fullPath (s ! i)"
    using withoutCount_nth [OF wc i] by (rule withoutCount_fullPath [symmetric])
  have fa: "findAnnotationInList (map ((!) t) gr) (t ! i) =
            findAnnotationInList (map ((!) s) gr) (s ! i)"
    using findAnnotationInList_cong [OF wc refs i] by (rule sym)
  show ?thesis
  proof (cases "inChangedFiles cf (fullPath (s ! i))")
    case False
    with a b fp show ?thesis by (auto simp: groupAnnotation_def)
  next
    case True
    show ?thesis
    proof (cases "findAnnotationInList (map ((!) s) gr) (s ! i)")
      case None
      with a b True fp fa show ?thesis by (auto simp: groupAnnotation_def)
    next
      case (Some index)
      with a b True fp fa show ?thesis
        by (auto simp: groupAnnotation_def split: if_splits)
    qed
  qed
qed

lemma forEach_refs_cong:
  assumes wc: "map withoutCount s = map withoutCount t"
  shows "n \<le> length s \<Longrightarrow>
         forEach (groupAnnotation cf) [0..<n] (s, []) = Inr g \<Longrightarrow>
         forEach (groupAnnotation cf) [0..<n] (t, []) = Inr h \<Longrightarrow> snd g = snd h"
proof (induction n arbitrary: g h)
  case 0
  then show ?case by auto
next
  case (Suc n)
  have lt: "length t = length s" using wc by (metis length_map)
  obtain g0 where g0: "forEach (groupAnnotation cf) [0..<n] (s, []) = Inr g0"
    and ginv: "groupingInv cf s n g0"
    using forEach_upt_inv [of n s cf] Suc.prems(1) by auto
  obtain h0 where h0: "forEach (groupAnnotation cf) [0..<n] (t, []) = Inr h0"
    and hinv: "groupingInv cf t n h0"
    using forEach_upt_inv [of n t cf] Suc.prems(1) lt by auto
  have eq: "snd g0 = snd h0" using Suc.IH [OF _ g0 h0] Suc.prems(1) by simp
  have gs: "groupAnnotation cf n (fst g0, snd g0) = Inr g"
    using Suc.prems(2) g0 by (simp add: forEach_append split: sum.splits)
  have hs: "groupAnnotation cf n (fst h0, snd g0) = Inr h"
    using Suc.prems(3) h0 eq by (simp add: forEach_append split: sum.splits)
  have w: "map withoutCount (fst g0) = map withoutCount (fst h0)"
    using ginv hinv wc by (simp add: groupingInv_def)
  have l: "length (fst g0) = length s" using ginv by (simp add: groupingInv_def)
  have r: "\<forall>r \<in> set (snd g0). r < length (fst g0)"
    using ginv Suc.prems(1) l by (auto simp: groupingInv_def)
  have n: "n < length (fst g0)" using Suc.prems(1) l by simp
  show ?case by (rule groupAnnotation_refs_cong [OF w r n gs hs])
qed

lemma grouped_refs_cong:
  assumes "map withoutCount s = map withoutCount t"
    and "grouped s cf = Inr g" and "grouped t cf = Inr h"
  shows "snd g = snd h"
proof -
  have "length t = length s" using assms(1) by (metis length_map)
  with assms(2,3) forEach_refs_cong [OF assms(1), of "length s" cf g h] show ?thesis
    by (simp add: grouped_def)
qed

lemma sort_key_cong_on:
  "(\<And>x. x \<in> set xs \<Longrightarrow> f x = g x) \<Longrightarrow> sort_key f xs = sort_key g xs"
proof (induction xs)
  case Nil
  show ?case by simp
next
  case (Cons x xs)
  have r: "sort_key f xs = sort_key g xs" using Cons by simp
  have i: "insort_key f x ys = insort_key g x ys" if "set ys \<subseteq> set (x # xs)" for ys
    using that Cons.prems by (induction ys) simp_all
  have "insort_key f x (sort_key g xs) = insort_key g x (sort_key g xs)"
    by (rule i) auto
  then show ?case using r by simp
qed

lemma sortKey_withoutCount:
  "r < length s \<Longrightarrow> sortKey (map withoutCount s) r = sortKey s r"
  by (simp add: sortKey_def withoutCount_def)

lemma sortedRefs_cong:
  assumes "map withoutCount s = map withoutCount t" and "\<forall>r \<in> set gr. r < length s"
  shows "sortedRefs (s, gr) = sortedRefs (t, gr)"
proof -
  have l: "length t = length s" using assms(1) by (metis length_map)
  have k: "sortKey s r = sortKey t r" if "r \<in> set gr" for r
  proof -
    have "sortKey s r = sortKey (map withoutCount s) r"
      using that assms(2) by (simp add: sortKey_withoutCount)
    also have "\<dots> = sortKey (map withoutCount t) r" by (simp only: assms(1))
    also have "\<dots> = sortKey t r" using that assms(2) l by (simp add: sortKey_withoutCount)
    finally show ?thesis .
  qed
  show ?thesis
    unfolding sortedRefs_sort_key fst_conv snd_conv by (rule sort_key_cong_on) (rule k)
qed

lemma toReviewComment_withoutCount:
  "path (toReviewComment cfg (withoutCount a)) = path (toReviewComment cfg a)"
  "line_of (toReviewComment cfg (withoutCount a)) = line_of (toReviewComment cfg a)"
  by (simp_all add: toReviewComment_def withoutCount_def)

lemma place_cong:
  assumes "map withoutCount s = map withoutCount t" and "\<forall>r \<in> set refs. r < length s"
  shows "map path (map (\<lambda>r. toReviewComment cfg (s ! r)) refs) =
         map path (map (\<lambda>r. toReviewComment cfg (t ! r)) refs)"
    and "map line_of (map (\<lambda>r. toReviewComment cfg (s ! r)) refs) =
         map line_of (map (\<lambda>r. toReviewComment cfg (t ! r)) refs)"
proof -
  have w: "withoutCount (s ! r) = withoutCount (t ! r)" if "r \<in> set refs" for r
    using withoutCount_nth [OF assms(1)] assms(2) that by blast
  have "path (toReviewComment cfg (s ! r)) = path (toReviewComment cfg (t ! r))"
    and "line_of (toReviewComment cfg (s ! r)) = line_of (toReviewComment cfg (t ! r))"
    if "r \<in> set refs" for r
  proof -
    have "path (toReviewComment cfg (s ! r)) = path (toReviewComment cfg (withoutCount (s ! r)))"
      by (rule toReviewComment_withoutCount(1) [symmetric])
    also have "\<dots> = path (toReviewComment cfg (withoutCount (t ! r)))"
      by (simp only: w [OF that])
    also have "\<dots> = path (toReviewComment cfg (t ! r))"
      by (rule toReviewComment_withoutCount(1))
    finally show "path (toReviewComment cfg (s ! r)) = path (toReviewComment cfg (t ! r))" .
    have "line_of (toReviewComment cfg (s ! r)) =
          line_of (toReviewComment cfg (withoutCount (s ! r)))"
      by (rule toReviewComment_withoutCount(2) [symmetric])
    also have "\<dots> = line_of (toReviewComment cfg (withoutCount (t ! r)))"
      by (simp only: w [OF that])
    also have "\<dots> = line_of (toReviewComment cfg (t ! r))"
      by (rule toReviewComment_withoutCount(2))
    finally show "line_of (toReviewComment cfg (s ! r)) = line_of (toReviewComment cfg (t ! r))" .
  qed
  then show "map path (map (\<lambda>r. toReviewComment cfg (s ! r)) refs) =
         map path (map (\<lambda>r. toReviewComment cfg (t ! r)) refs)"
    and "map line_of (map (\<lambda>r. toReviewComment cfg (s ! r)) refs) =
         map line_of (map (\<lambda>r. toReviewComment cfg (t ! r)) refs)"
    by simp_all
qed

lemma groupAnnotation_noRepeatedKey:
  assumes nr: "noRepeatedKey cf anns" and n: "n < length anns"
    and inv: "groupingInv cf anns n (anns, gr)"
  shows "\<exists>gr'. groupAnnotation cf n (anns, gr) = Inr (anns, gr')"
proof (cases "inChangedFiles cf (fullPath (anns ! n))")
  case False
  then show ?thesis by (simp add: groupAnnotation_def)
next
  case True
  have "\<not> sameKey x (anns ! n)" if "x \<in> set (map ((!) anns) gr)" for x
  proof -
    from that obtain r where r: "r \<in> set gr" and x: "x = anns ! r" by auto
    from inv r have "r < n" "inChangedFiles cf (fullPath (anns ! r))"
      by (simp_all add: groupingInv_def)
    with nr n True show ?thesis unfolding x noRepeatedKey_def by blast
  qed
  then have "findAnnotationInList (map ((!) anns) gr) (anns ! n) = None"
    unfolding findAnnotationInList_sameKey findIndex_None by blast
  with True show ?thesis by (simp add: groupAnnotation_def)
qed

lemma forEach_noRepeatedKey:
  assumes nr: "noRepeatedKey cf anns"
  shows "n \<le> length anns \<Longrightarrow>
         \<exists>gr. forEach (groupAnnotation cf) [0..<n] (anns, []) = Inr (anns, gr)"
proof (induction n)
  case 0
  show ?case by simp
next
  case (Suc n)
  then obtain gr where gr: "forEach (groupAnnotation cf) [0..<n] (anns, []) = Inr (anns, gr)"
    by auto
  have inv: "groupingInv cf anns n (anns, gr)"
    using forEach_upt_inv [of n anns cf] Suc.prems gr by auto
  from groupAnnotation_noRepeatedKey [OF nr _ inv] Suc.prems
  obtain gr' where "groupAnnotation cf n (anns, gr) = Inr (anns, gr')" by auto
  with gr show ?case by (simp add: forEach_append)
qed

lemma grouped_noRepeatedKey:
  "noRepeatedKey cf anns \<Longrightarrow> grouped anns cf = Inr g \<Longrightarrow> fst g = anns"
  using forEach_noRepeatedKey [of cf anns "length anns"] by (auto simp: grouped_def)

text \<open>
  C2, as the code has it. createReviewComments adds the merged counts into the array it is
  given, so a second call on the same array starts from the counts the first call left.
  Both calls return; the second returns as many review comments as the first, with the
  same \<open>path\<close> and \<open>line\<close> in the same order; and when no annotation in scope repeats the
  key of an earlier one, the first call leaves the array as it was and the two sequences
  are identical, bodies included.
\<close>

theorem grouping_twice:
  "\<exists>cs1 anns1 cs2 anns2.
     createReviewComments cfg annotations changedFiles = Inr (cs1, anns1) \<and>
     createReviewComments cfg anns1 changedFiles = Inr (cs2, anns2) \<and>
     map path cs2 = map path cs1 \<and> map line_of cs2 = map line_of cs1 \<and>
     (noRepeatedKey changedFiles annotations \<longrightarrow> anns1 = annotations \<and> cs2 = cs1)"
proof -
  obtain g1 where g1: "grouped annotations changedFiles = Inr g1"
    and inv1: "groupingInv changedFiles annotations (length annotations) g1"
    using grouped_inv by blast
  obtain g2 where g2: "grouped (fst g1) changedFiles = Inr g2"
    and inv2: "groupingInv changedFiles (fst g1) (length (fst g1)) g2"
    using grouped_inv by blast
  let ?cs1 = "map (\<lambda>r. toReviewComment cfg (fst g1 ! r)) (sortedRefs g1)"
  let ?cs2 = "map (\<lambda>r. toReviewComment cfg (fst g2 ! r)) (sortedRefs g2)"
  have c1: "createReviewComments cfg annotations changedFiles = Inr (?cs1, fst g1)"
    by (rule createReviewComments_grouped [OF g1])
  have c2: "createReviewComments cfg (fst g1) changedFiles = Inr (?cs2, fst g2)"
    by (rule createReviewComments_grouped [OF g2])
  have w1: "map withoutCount annotations = map withoutCount (fst g1)"
    using inv1 by (simp add: groupingInv_def)
  have w2: "map withoutCount (fst g2) = map withoutCount (fst g1)"
    using inv2 by (simp add: groupingInv_def)
  have l1: "length (fst g1) = length annotations" using inv1 by (simp add: groupingInv_def)
  have l2: "length (fst g2) = length (fst g1)" using inv2 by (simp add: groupingInv_def)
  have refs: "snd g2 = snd g1" using grouped_refs_cong [OF w1 g1 g2] by simp
  have rng: "\<forall>r \<in> set (snd g1). r < length (fst g2)"
    using inv1 l1 l2 by (auto simp: groupingInv_def)
  have "sortedRefs (fst g2, snd g1) = sortedRefs (fst g1, snd g1)"
    by (rule sortedRefs_cong [OF w2 rng])
  then have sr: "sortedRefs g2 = sortedRefs g1" using refs by (metis prod.collapse)
  have rng': "\<forall>r \<in> set (sortedRefs g1). r < length (fst g2)"
    using rng by (simp only: set_sortedRefs)
  have p: "map path ?cs2 = map path ?cs1" and l: "map line_of ?cs2 = map line_of ?cs1"
    unfolding sr by (rule place_cong [OF w2 rng'])+
  have n: "fst g1 = annotations \<and> ?cs2 = ?cs1" if "noRepeatedKey changedFiles annotations"
  proof -
    have e: "fst g1 = annotations" by (rule grouped_noRepeatedKey [OF that g1])
    then have "g2 = g1" using g1 g2 by simp
    with e show ?thesis by simp
  qed
  from c1 c2 p l n show ?thesis by blast
qed

theorem grouping_twice_witness:
  "noRepeatedKey [''.ts''] [sampleOther, sampleAnnotation] \<and>
   (\<exists>cs1 cs2 anns2.
      createReviewComments sampleConfig [sampleOther, sampleAnnotation] [''.ts''] =
        Inr (cs1, [sampleOther, sampleAnnotation]) \<and>
      createReviewComments sampleConfig [sampleOther, sampleAnnotation] [''.ts''] =
        Inr (cs2, anns2) \<and>
      map path cs2 = map path cs1 \<and> map line_of cs2 = map line_of cs1 \<and> cs2 = cs1)"
proof -
  have n: "noRepeatedKey [''.ts''] [sampleOther, sampleAnnotation]" by code_simp
  from grouping_twice [of sampleConfig "[sampleOther, sampleAnnotation]" "[''.ts'']"] n
  show ?thesis by auto
qed

text \<open>
  C2 as stated fails: two annotations with one key. The first call writes the count 2 into
  the first annotation and shows \<open>(2x)\<close>; the second call, on the same array, adds the count
  of the second annotation again and shows \<open>(3x)\<close>.
\<close>

theorem grouping_twice_counterexample:
  "createReviewComments sampleConfig [sampleAnnotation, sampleAnnotation] [''a.ts''] =
     Inr ([toReviewComment sampleConfig (sampleAnnotation\<lparr>count := 2\<rparr>)],
          [sampleAnnotation\<lparr>count := 2\<rparr>, sampleAnnotation]) \<and>
   createReviewComments sampleConfig [sampleAnnotation\<lparr>count := 2\<rparr>, sampleAnnotation] [''a.ts''] =
     Inr ([toReviewComment sampleConfig (sampleAnnotation\<lparr>count := 3\<rparr>)],
          [sampleAnnotation\<lparr>count := 3\<rparr>, sampleAnnotation]) \<and>
   body (toReviewComment sampleConfig (sampleAnnotation\<lparr>count := 3\<rparr>)) \<noteq>
   body (toReviewComment sampleConfig (sampleAnnotation\<lparr>count := 2\<rparr>))"
  by code_simp

subsection \<open>The run of postReviewComments\<close>

lemma deletionsIssued_append:
  "deletionsIssued (xs @ ys) = deletionsIssued xs @ deletionsIssued ys"
  by (induction xs rule: deletionsIssued.induct) simp_all

lemma creationsIssued_append:
  "creationsIssued (xs @ ys) = creationsIssued xs @ creationsIssued ys"
  by (induction xs rule: creationsIssued.induct) simp_all

lemma deletionsIssued_none:
  "\<forall>e \<in> set es. \<not> isDeleteCall e \<Longrightarrow> deletionsIssued es = []"
  by (induction es rule: deletionsIssued.induct) auto

lemma creationsIssued_none:
  "\<forall>e \<in> set es. \<not> isCreateCall e \<Longrightarrow> creationsIssued es = []"
  by (induction es rule: creationsIssued.induct) auto

lemma createSettled_no_call:
  "e \<in> set (fst (createSettled gh rv env comments k unposted)) \<Longrightarrow>
   \<not> isDeleteCall e \<and> \<not> isCreateCall e"
  by (auto simp: createSettled_def split: option.splits)

lemma deleteSettled_no_call:
  "e \<in> set (deleteSettled gh env deletions k) \<Longrightarrow> \<not> isDeleteCall e \<and> \<not> isCreateCall e"
  by (auto simp: deleteSettled_def split: option.splits)

lemma awaitAll_no_call:
  assumes "\<And>k un e. e \<in> set (fst (onCreate k un)) \<Longrightarrow> \<not> isDeleteCall e \<and> \<not> isCreateCall e"
    and "\<And>k e. e \<in> set (onDelete k) \<Longrightarrow> \<not> isDeleteCall e \<and> \<not> isCreateCall e"
  shows "e \<in> set (fst (awaitAll onCreate onDelete rs creating deleting unposted)) \<Longrightarrow>
         \<not> isDeleteCall e \<and> \<not> isCreateCall e"
proof (induction rs arbitrary: creating deleting unposted)
  case Nil
  then show ?case by simp
next
  case (Cons r rs)
  show ?case
  proof (cases "creating = []")
    case True
    with Cons.prems show ?thesis by simp
  next
    case False
    show ?thesis
    proof (cases r)
      case (DeleteResponse k)
      with Cons.prems False Cons.IH assms(2) show ?thesis
        by (auto simp: Let_def split: if_splits)
    next
      case (CreateResponse k)
      with Cons.prems False Cons.IH assms(1) show ?thesis
        by (auto simp: Let_def split: if_splits)
    qed
  qed
qed

lemma deleteIfOwned_issued:
  "deletionsIssued (concat (map (deleteIfOwned gh) posted)) =
   map comment_id (filter (\<lambda>c. substring0 (posted_body c) 17 = marker) posted)"
  by (induction posted) (simp_all add: deleteIfOwned_def deletionsIssued_append)

lemma deleteIfOwned_no_create:
  "e \<in> set (concat (map (deleteIfOwned gh) posted)) \<Longrightarrow> \<not> isCreateCall e"
  by (auto simp: deleteIfOwned_def split: if_splits)

lemma substring0_marker: "(substring0 s 17 = marker) = prefix marker s"
proof -
  have l: "length marker = 17" by (simp add: marker_def)
  show ?thesis
  proof
    assume "substring0 s 17 = marker"
    then have "s = marker @ drop 17 s" unfolding substring0_def by (metis append_take_drop_id)
    then show "prefix marker s" by (metis prefixI)
  next
    assume "prefix marker s"
    then obtain zs where "s = marker @ zs" by (auto simp: prefix_def)
    then show "substring0 s 17 = marker" using l by (simp add: substring0_def)
  qed
qed

lemma createReviewComments_total:
  "\<exists>comments anns. createReviewComments cfg annotations changedFiles = Inr (comments, anns)"
  using grouped_inv [of annotations changedFiles] createReviewComments_grouped by blast

lemma postReviewComments_trace:
  assumes c: "createReviewComments cfg annotations cf = Inr (comments, anns)"
  shows "\<exists>rest.
           fst (postReviewComments gh cfg env rv annotations cf) =
             fst (getPostedReviewComments gh env)
             @ fst (case snd (getPostedReviewComments gh env) of
                      None \<Rightarrow> ([], [])
                    | Some posted \<Rightarrow> deletePreviousReviewComments gh posted)
             @ Log LogHeader ''Posting review comments.''
             # map (\<lambda>comment. Call (CreateReviewComment gh (commit_id rv) comment)) comments
             @ rest \<and>
           (\<forall>e \<in> set rest. \<not> isDeleteCall e \<and> \<not> isCreateCall e)"
proof -
  let ?purge = "case snd (getPostedReviewComments gh env) of
                  None \<Rightarrow> ([], [])
                | Some posted \<Rightarrow> deletePreviousReviewComments gh posted"
  let ?waited = "awaitAll (createSettled gh rv env comments) (deleteSettled gh env (snd ?purge))
                   (arrival env) [0..<length comments] [0..<length (snd ?purge)] []"
  have w: "\<forall>e \<in> set (fst ?waited). \<not> isDeleteCall e \<and> \<not> isCreateCall e"
    using awaitAll_no_call [of "createSettled gh rv env comments"
        "deleteSettled gh env (snd ?purge)"]
      createSettled_no_call deleteSettled_no_call by blast
  show ?thesis
  proof (cases "snd ?waited")
    case None
    then have "fst (postReviewComments gh cfg env rv annotations cf) =
             fst (getPostedReviewComments gh env) @ fst ?purge
             @ Log LogHeader ''Posting review comments.''
             # map (\<lambda>comment. Call (CreateReviewComment gh (commit_id rv) comment)) comments
             @ fst ?waited"
      using c by (simp add: postReviewComments_def Let_def)
    with w show ?thesis by blast
  next
    case (Some unposted)
    then have "fst (postReviewComments gh cfg env rv annotations cf) =
             fst (getPostedReviewComments gh env) @ fst ?purge
             @ Log LogHeader ''Posting review comments.''
             # map (\<lambda>comment. Call (CreateReviewComment gh (commit_id rv) comment)) comments
             @ (fst ?waited @ [Log LogInfo ''Posted review comments.''])"
      using c by (simp add: postReviewComments_def Let_def)
    moreover have "\<forall>e \<in> set (fst ?waited @ [Log LogInfo ''Posted review comments.'']).
                     \<not> isDeleteCall e \<and> \<not> isCreateCall e"
      using w by simp
    ultimately show ?thesis by blast
  qed
qed

lemma getPosted_no_call:
  "\<forall>e \<in> set (fst (getPostedReviewComments gh env)). \<not> isDeleteCall e \<and> \<not> isCreateCall e"
  by (auto simp: getPostedReviewComments_def split: sum.splits)

lemma deletionsIssued_creates:
  "deletionsIssued (map (\<lambda>comment. Call (CreateReviewComment gh c comment)) comments) = []"
  by (induction comments) simp_all

lemma creationsIssued_creates:
  "creationsIssued (map (\<lambda>comment. Call (CreateReviewComment gh c comment)) comments) = comments"
  by (induction comments) simp_all

text \<open>
  C8. When the listing succeeds, the deletions that the run issues are those of the listed
  comments whose body starts with the marker, one for each such comment and in their
  order; no deletion is issued for a comment whose body does not start with it.
\<close>

theorem purge_targets:
  assumes l: "listing env = Inr posted"
  shows "deletionsIssued (fst (postReviewComments gh cfg env rv annotations changedFiles)) =
           map comment_id (filter (\<lambda>c. prefix marker (posted_body c)) posted)"
proof -
  obtain comments anns where
    c: "createReviewComments cfg annotations changedFiles = Inr (comments, anns)"
    using createReviewComments_total by blast
  have g: "getPostedReviewComments gh env =
             ([Log LogInfo ''Retrieving posted review comments.'',
               Call (ListReviewComments gh), Settled (ListReviewComments gh) None], Some posted)"
    using l by (simp add: getPostedReviewComments_def)
  from postReviewComments_trace [OF c, of gh env rv] obtain rest where
    t: "fst (postReviewComments gh cfg env rv annotations changedFiles) =
          fst (getPostedReviewComments gh env)
          @ fst (case snd (getPostedReviewComments gh env) of
                   None \<Rightarrow> ([], [])
                 | Some posted \<Rightarrow> deletePreviousReviewComments gh posted)
          @ Log LogHeader ''Posting review comments.''
          # map (\<lambda>comment. Call (CreateReviewComment gh (commit_id rv) comment)) comments
          @ rest"
    and r: "\<forall>e \<in> set rest. \<not> isDeleteCall e \<and> \<not> isCreateCall e"
    by blast
  have "deletionsIssued rest = []" using r by (intro deletionsIssued_none) blast
  then show ?thesis
    unfolding t g
    by (simp add: deletePreviousReviewComments_def deletionsIssued_append
        deleteIfOwned_issued deletionsIssued_creates substring0_marker)
qed

theorem purge_targets_witness:
  "listing samplePlatform = Inr samplePosted \<and>
   deletionsIssued (fst (postReviewComments sampleGithub sampleConfig samplePlatform sampleReview
      [sampleOther, sampleAnnotation] [''.ts''])) = [7]"
proof -
  have l: "listing samplePlatform = Inr samplePosted" by (simp add: samplePlatform_def)
  have "map comment_id (filter (\<lambda>c. prefix marker (posted_body c)) samplePosted) = [7]"
    by code_simp
  with purge_targets [OF l, of sampleGithub sampleConfig sampleReview
      "[sampleOther, sampleAnnotation]" "[''.ts'']"] l
  show ?thesis by simp
qed

lemma awaitAll_returns:
  assumes "distinct creating" and "\<forall>k \<in> set creating. CreateResponse k \<in> set rs"
  shows "\<exists>un. snd (awaitAll (createSettled gh rv env comments) onDelete rs creating deleting unposted)
                 = Some un \<and>
              mset un = mset unposted +
                mset (map ((!) comments) (filter (\<lambda>k. createOutcome env k \<noteq> None) creating))"
  using assms
proof (induction rs arbitrary: creating deleting unposted)
  case Nil
  then have "creating = []" by simp
  then show ?case by simp
next
  case (Cons r rs)
  show ?case
  proof (cases "creating = []")
    case True
    then show ?thesis by simp
  next
    case False
    show ?thesis
    proof (cases r)
      case (DeleteResponse k)
      have p: "\<forall>k \<in> set creating. CreateResponse k \<in> set rs"
        using Cons.prems(2) DeleteResponse by auto
      from Cons.IH [OF Cons.prems(1) p] False DeleteResponse show ?thesis
        by (simp add: Let_def)
    next
      case (CreateResponse k)
      show ?thesis
      proof (cases "k \<in> set creating")
        case False
        have p: "\<forall>k \<in> set creating. CreateResponse k \<in> set rs"
          using Cons.prems(2) CreateResponse False by auto
        from Cons.IH [OF Cons.prems(1) p] \<open>creating \<noteq> []\<close> CreateResponse False show ?thesis
          by simp
      next
        case True
        let ?c' = "removeAll k creating"
        let ?un' = "snd (createSettled gh rv env comments k unposted)"
        have d: "distinct ?c'" using Cons.prems(1) by (simp add: distinct_removeAll)
        have p: "\<forall>j \<in> set ?c'. CreateResponse j \<in> set rs"
          using Cons.prems(2) CreateResponse by auto
        from Cons.IH [OF d p, of deleting ?un'] obtain un where
          un: "snd (awaitAll (createSettled gh rv env comments) onDelete rs ?c' deleting ?un')
                 = Some un"
          and m: "mset un = mset ?un' +
                mset (map ((!) comments) (filter (\<lambda>k. createOutcome env k \<noteq> None) ?c'))"
          by blast
        have s: "mset creating = add_mset k (mset ?c')"
          using True Cons.prems(1)
          by (simp add: distinct_remove1_removeAll [symmetric])
        have "mset (map ((!) comments) (filter (\<lambda>k. createOutcome env k \<noteq> None) creating)) =
              image_mset ((!) comments) (filter_mset (\<lambda>k. createOutcome env k \<noteq> None) (mset creating))"
          by simp
        also have "\<dots> = (if createOutcome env k \<noteq> None then {#comments ! k#} else {#}) +
              mset (map ((!) comments) (filter (\<lambda>k. createOutcome env k \<noteq> None) ?c'))"
          unfolding s by simp
        finally have f: "mset (map ((!) comments) (filter (\<lambda>k. createOutcome env k \<noteq> None) creating)) =
              (if createOutcome env k \<noteq> None then {#comments ! k#} else {#}) +
              mset (map ((!) comments) (filter (\<lambda>k. createOutcome env k \<noteq> None) ?c'))" .
        have u: "mset ?un' = mset unposted +
                   (if createOutcome env k \<noteq> None then {#comments ! k#} else {#})"
          by (simp add: createSettled_def split: option.splits)
        have "snd (awaitAll (createSettled gh rv env comments) onDelete (r # rs) creating
                     deleting unposted) = Some un"
          using un True \<open>creating \<noteq> []\<close> CreateResponse by (simp add: Let_def)
        moreover have "mset un = mset unposted +
                mset (map ((!) comments) (filter (\<lambda>k. createOutcome env k \<noteq> None) creating))"
          unfolding m f u by simp
        ultimately show ?thesis by blast
      qed
    qed
  qed
qed

lemma postReviewComments_returns:
  assumes c: "createReviewComments cfg annotations changedFiles = Inr (comments, anns)"
    and a: "\<forall>k < length comments. CreateResponse k \<in> set (arrival env)"
  shows "\<exists>unposted.
           snd (postReviewComments gh cfg env rv annotations changedFiles) = Some (Inr unposted) \<and>
           mset unposted = mset (map ((!) comments)
             (filter (\<lambda>k. createOutcome env k \<noteq> None) [0..<length comments]))"
proof -
  let ?purge = "case snd (getPostedReviewComments gh env) of
                  None \<Rightarrow> ([], [])
                | Some posted \<Rightarrow> deletePreviousReviewComments gh posted"
  have a': "\<forall>k \<in> set [0..<length comments]. CreateResponse k \<in> set (arrival env)"
    using a by simp
  from awaitAll_returns [OF distinct_upt a', of gh rv env comments
      "deleteSettled gh env (snd ?purge)" "[0..<length (snd ?purge)]" "[]"]
  obtain un where
    un: "snd (awaitAll (createSettled gh rv env comments) (deleteSettled gh env (snd ?purge))
            (arrival env) [0..<length comments] [0..<length (snd ?purge)] []) = Some un"
    and m: "mset un = mset (map ((!) comments)
              (filter (\<lambda>k. createOutcome env k \<noteq> None) [0..<length comments]))"
    by auto
  have "snd (postReviewComments gh cfg env rv annotations changedFiles) = Some (Inr un)"
    using c un by (simp add: postReviewComments_def Let_def)
  with m show ?thesis by blast
qed

text \<open>
  C4. Whatever the number of review comments, when the response to every creation arrives
  and exactly the creations with an index in \<open>K\<close> are rejected, postReviewComments returns
  (it does not throw), and what it returns is exactly the comments with an index in \<open>K\<close>.
\<close>

theorem partial_posting:
  assumes c: "createReviewComments cfg annotations changedFiles = Inr (comments, anns)"
    and a: "\<forall>k < length comments. CreateResponse k \<in> set (arrival env)"
    and K: "\<forall>k < length comments. (createOutcome env k \<noteq> None) = (k \<in> K)"
  shows "\<exists>unposted.
           snd (postReviewComments gh cfg env rv annotations changedFiles) = Some (Inr unposted) \<and>
           mset unposted = mset (map ((!) comments) (filter (\<lambda>k. k \<in> K) [0..<length comments]))"
proof -
  have e: "filter (\<lambda>k. createOutcome env k \<noteq> None) [0..<length comments] =
        filter (\<lambda>k. k \<in> K) [0..<length comments]"
    using K by (intro filter_cong) simp_all
  show ?thesis using postReviewComments_returns [OF c a, of gh rv] unfolding e .
qed

theorem partial_posting_witness:
  "createReviewComments sampleConfig [sampleOther, sampleAnnotation] [''.ts''] =
     Inr ([toReviewComment sampleConfig sampleAnnotation, toReviewComment sampleConfig sampleOther],
          [sampleOther, sampleAnnotation]) \<and>
   CreateResponse 0 \<in> set (arrival samplePlatform) \<and>
   CreateResponse 1 \<in> set (arrival samplePlatform) \<and>
   createOutcome samplePlatform 0 \<noteq> None \<and> createOutcome samplePlatform 1 = None \<and>
   (\<exists>unposted.
      snd (postReviewComments sampleGithub sampleConfig samplePlatform sampleReview
             [sampleOther, sampleAnnotation] [''.ts'']) = Some (Inr unposted) \<and>
      mset unposted = {#toReviewComment sampleConfig sampleAnnotation#})"
proof -
  let ?cs = "[toReviewComment sampleConfig sampleAnnotation, toReviewComment sampleConfig sampleOther]"
  have c: "createReviewComments sampleConfig [sampleOther, sampleAnnotation] [''.ts''] =
     Inr (?cs, [sampleOther, sampleAnnotation])"
    by code_simp
  have r: "CreateResponse 0 \<in> set (arrival samplePlatform)"
    "CreateResponse 1 \<in> set (arrival samplePlatform)"
    by (simp_all add: samplePlatform_def)
  have o: "createOutcome samplePlatform 0 \<noteq> None" "createOutcome samplePlatform 1 = None"
    by (simp_all add: samplePlatform_def)
  have a: "\<forall>k < length ?cs. CreateResponse k \<in> set (arrival samplePlatform)"
    using r by (simp add: All_less_Suc)
  have K: "\<forall>k < length ?cs. (createOutcome samplePlatform k \<noteq> None) = (k \<in> {0})"
    using o by (simp add: All_less_Suc)
  have f: "filter (\<lambda>k. k \<in> {0}) [0..<length ?cs] = [0]" by (simp add: upt_rec)
  from partial_posting [OF c a K, of sampleGithub sampleReview] c r o
  show ?thesis unfolding f by simp
qed

text \<open>
  C9. When the listing is rejected, the rejection is logged as an error, no deletion is
  issued, every review comment is given to the platform, and postReviewComments returns
  once the responses to the creations have arrived.
\<close>

theorem listing_failure:
  assumes l: "listing env = Inl m"
    and c: "createReviewComments cfg annotations changedFiles = Inr (comments, anns)"
  shows "Log LogError (''Could not retrieve the review comments: '' @ m)
           \<in> set (fst (postReviewComments gh cfg env rv annotations changedFiles)) \<and>
         deletionsIssued (fst (postReviewComments gh cfg env rv annotations changedFiles)) = [] \<and>
         creationsIssued (fst (postReviewComments gh cfg env rv annotations changedFiles)) = comments \<and>
         ((\<forall>k < length comments. CreateResponse k \<in> set (arrival env)) \<longrightarrow>
          (\<exists>unposted. snd (postReviewComments gh cfg env rv annotations changedFiles) =
             Some (Inr unposted)))"
proof -
  have g: "getPostedReviewComments gh env =
             ([Log LogInfo ''Retrieving posted review comments.'',
               Call (ListReviewComments gh), Settled (ListReviewComments gh) (Some m),
               Log LogError (''Could not retrieve the review comments: '' @ m)], None)"
    using l by (simp add: getPostedReviewComments_def)
  from postReviewComments_trace [OF c, of gh env rv] obtain rest where
    t: "fst (postReviewComments gh cfg env rv annotations changedFiles) =
          fst (getPostedReviewComments gh env)
          @ fst (case snd (getPostedReviewComments gh env) of
                   None \<Rightarrow> ([], [])
                 | Some posted \<Rightarrow> deletePreviousReviewComments gh posted)
          @ Log LogHeader ''Posting review comments.''
          # map (\<lambda>comment. Call (CreateReviewComment gh (commit_id rv) comment)) comments
          @ rest"
    and r: "\<forall>e \<in> set rest. \<not> isDeleteCall e \<and> \<not> isCreateCall e"
    by blast
  have rd: "deletionsIssued rest = []" using r by (intro deletionsIssued_none) blast
  have rc: "creationsIssued rest = []" using r by (intro creationsIssued_none) blast
  have 1: "Log LogError (''Could not retrieve the review comments: '' @ m)
           \<in> set (fst (postReviewComments gh cfg env rv annotations changedFiles))"
    unfolding t g by simp
  have 2: "deletionsIssued (fst (postReviewComments gh cfg env rv annotations changedFiles)) = []"
    unfolding t g using rd by (simp add: deletionsIssued_append deletionsIssued_creates)
  have 3: "creationsIssued (fst (postReviewComments gh cfg env rv annotations changedFiles)) = comments"
    unfolding t g using rc by (simp add: creationsIssued_append creationsIssued_creates)
  have 4: "\<exists>unposted. snd (postReviewComments gh cfg env rv annotations changedFiles) =
             Some (Inr unposted)"
    if "\<forall>k < length comments. CreateResponse k \<in> set (arrival env)"
    using postReviewComments_returns [OF c that, of gh rv] by blast
  from 1 2 3 4 show ?thesis by blast
qed

theorem listing_failure_witness:
  "listing sampleFailing = Inl ''Not Found'' \<and>
   createReviewComments sampleConfig [sampleOther, sampleAnnotation] [''.ts''] =
     Inr ([toReviewComment sampleConfig sampleAnnotation, toReviewComment sampleConfig sampleOther],
          [sampleOther, sampleAnnotation]) \<and>
   CreateResponse 0 \<in> set (arrival sampleFailing) \<and>
   CreateResponse 1 \<in> set (arrival sampleFailing) \<and>
   Log LogError ''Could not retrieve the review comments: Not Found''
     \<in> set (fst (postReviewComments sampleGithub sampleConfig sampleFailing sampleReview
                   [sampleOther, sampleAnnotation] [''.ts''])) \<and>
   deletionsIssued (fst (postReviewComments sampleGithub sampleConfig sampleFailing sampleReview
                   [sampleOther, sampleAnnotation] [''.ts''])) = [] \<and>
   (\<exists>unposted. snd (postReviewComments sampleGithub sampleConfig sampleFailing sampleReview
                   [sampleOther, sampleAnnotation] [''.ts'']) = Some (Inr unposted))"
proof -
  let ?cs = "[toReviewComment sampleConfig sampleAnnotation, toReviewComment sampleConfig sampleOther]"
  have l: "listing sampleFailing = Inl ''Not Found''" by (simp add: sampleFailing_def)
  have c: "createReviewComments sampleConfig [sampleOther, sampleAnnotation] [''.ts''] =
     Inr (?cs, [sampleOther, sampleAnnotation])"
    by code_simp
  have r: "CreateResponse 0 \<in> set (arrival sampleFailing)"
    "CreateResponse 1 \<in> set (arrival sampleFailing)"
    by (simp_all add: sampleFailing_def samplePlatform_def)
  have a: "\<forall>k < length ?cs. CreateResponse k \<in> set (arrival sampleFailing)"
    using r by (simp add: All_less_Suc)
  from listing_failure [OF l c, of sampleGithub sampleReview] a l c r
  show ?thesis by simp
qed

lemma purgeIssuedBeforePosting_append:
  assumes "\<forall>e \<in> set pre. \<not> isCreateCall e" and "\<forall>e \<in> set post. \<not> isDeleteCall e"
  shows "purgeIssuedBeforePosting (pre @ post)"
proof -
  have "dropWhile (\<lambda>e. \<not> isCreateCall e) (pre @ post) = dropWhile (\<lambda>e. \<not> isCreateCall e) post"
    using assms(1) by (intro dropWhile_append2) blast
  moreover have "\<forall>e \<in> set (dropWhile (\<lambda>e. \<not> isCreateCall e) post). \<not> isDeleteCall e"
    using assms(2) set_dropWhileD by fast
  ultimately show ?thesis by (simp add: purgeIssuedBeforePosting_def list_all_iff)
qed

lemma purge_no_create:
  "\<forall>e \<in> set (fst (case r of None \<Rightarrow> ([], [])
                    | Some posted \<Rightarrow> deletePreviousReviewComments gh posted)).
     \<not> isCreateCall e"
  by (cases r) (auto simp: deletePreviousReviewComments_def deleteIfOwned_def split: if_splits)

text \<open>
  The order that does hold between the purge and the posting: every deletion is issued
  before the first creation call.
\<close>

lemma purge_issued_before_posting:
  "purgeIssuedBeforePosting (fst (postReviewComments gh cfg env rv annotations changedFiles))"
proof -
  obtain comments anns where
    c: "createReviewComments cfg annotations changedFiles = Inr (comments, anns)"
    using createReviewComments_total by blast
  let ?listed = "fst (getPostedReviewComments gh env)"
  let ?purge = "fst (case snd (getPostedReviewComments gh env) of
                   None \<Rightarrow> ([], [])
                 | Some posted \<Rightarrow> deletePreviousReviewComments gh posted)"
  let ?creates = "map (\<lambda>comment. Call (CreateReviewComment gh (commit_id rv) comment)) comments"
  from postReviewComments_trace [OF c, of gh env rv] obtain rest where
    t: "fst (postReviewComments gh cfg env rv annotations changedFiles) =
          ?listed @ ?purge @ Log LogHeader ''Posting review comments.'' # ?creates @ rest"
    and r: "\<forall>e \<in> set rest. \<not> isDeleteCall e \<and> \<not> isCreateCall e"
    by blast
  have pre: "\<forall>e \<in> set (?listed @ ?purge @ [Log LogHeader ''Posting review comments.'']).
               \<not> isCreateCall e"
    using getPosted_no_call [of gh env] purge_no_create [of gh "snd (getPostedReviewComments gh env)"]
    by auto
  have post: "\<forall>e \<in> set (?creates @ rest). \<not> isDeleteCall e" using r by auto
  have "fst (postReviewComments gh cfg env rv annotations changedFiles) =
          (?listed @ ?purge @ [Log LogHeader ''Posting review comments.'']) @ (?creates @ rest)"
    unfolding t by simp
  then show ?thesis using purgeIssuedBeforePosting_append [OF pre post] by simp
qed

text \<open>
  C3 on the code. deletePreviousReviewComments is called without \<open>await\<close> and does not
  await its own callbacks, while the posting awaits \<open>Promise.all\<close> of its callbacks. In
  this run one deletion is issued and then the creations; the deletion has not settled
  when the first creation call is made, although its response is the first to arrive.
\<close>

theorem purge_not_awaited:
  "deletionsIssued (fst (postReviewComments sampleGithub sampleConfig samplePlatform sampleReview
      [sampleOther, sampleAnnotation] [''.ts''])) = [7] \<and>
   deletionsSettled (takeWhile (\<lambda>e. \<not> isCreateCall e)
     (fst (postReviewComments sampleGithub sampleConfig samplePlatform sampleReview
        [sampleOther, sampleAnnotation] [''.ts'']))) = [] \<and>
   length (creationsIssued
     (fst (postReviewComments sampleGithub sampleConfig samplePlatform sampleReview
        [sampleOther, sampleAnnotation] [''.ts'']))) = 2 \<and>
   deletionsSettled
     (fst (postReviewComments sampleGithub sampleConfig samplePlatform sampleReview
        [sampleOther, sampleAnnotation] [''.ts''])) = [7] \<and>
   \<not> purgeCompletedBeforePosting
     (fst (postReviewComments sampleGithub sampleConfig samplePlatform sampleReview
        [sampleOther, sampleAnnotation] [''.ts'']))"
  by code_simp

end
